theory Spec2Isabelle
  imports Complex_Main
begin

section \<open>Python values and conversions used by the engine\<close>

text \<open>
  Python floats are modelled as reals: the rounding of IEEE doubles is abstracted away,
  everything else (defaults, truncation, comparisons, the order of effects) follows
  \<^verbatim>\<open>simulation_engine.py\<close> line by line.
\<close>

text \<open>\<^verbatim>\<open>x or d\<close> on an optional number: a missing key, \<^verbatim>\<open>None\<close> and \<^verbatim>\<open>0\<close> all give \<open>d\<close>.\<close>

definition or_default :: "real option \<Rightarrow> real \<Rightarrow> real" where
  "or_default x d = (case x of None \<Rightarrow> d | Some v \<Rightarrow> if v = 0 then d else v)"

text \<open>\<^verbatim>\<open>int(x)\<close> on a float truncates towards zero.\<close>

definition py_int :: "real \<Rightarrow> int" where
  "py_int x = (if 0 \<le> x then \<lfloor>x\<rfloor> else \<lceil>x\<rceil>)"

text \<open>\<^verbatim>\<open>round(x, 4)\<close>: to four decimals, ties to the even neighbour.\<close>

definition py_round4 :: "real \<Rightarrow> real" where
  "py_round4 x =
     (let y = x * 10000; f = \<lfloor>y\<rfloor>; r = y - of_int f
      in of_int (if r < 1 / 2 then f else if 1 / 2 < r then f + 1
                 else if even f then f else f + 1) / 10000)"

text \<open>
  A value a custom script may leave in its result: \<open>PyOpaque t\<close> stands for any object
  that \<^verbatim>\<open>float()\<close> rejects (a list, a dict, ...) and whose truth value is \<open>t\<close>.
\<close>

datatype pyval = PyNone | PyBool bool | PyNum real | PyOpaque bool

fun py_bool :: "pyval \<Rightarrow> bool" where
  "py_bool PyNone = False"
| "py_bool (PyBool b) = b"
| "py_bool (PyNum x) = (x \<noteq> 0)"
| "py_bool (PyOpaque t) = t"

text \<open>\<^verbatim>\<open>float(v)\<close>; \<open>None\<close> is the \<^verbatim>\<open>TypeError\<close>.\<close>

fun py_float :: "pyval \<Rightarrow> real option" where
  "py_float PyNone = None"
| "py_float (PyBool b) = Some (if b then 1 else 0)"
| "py_float (PyNum x) = Some x"
| "py_float (PyOpaque t) = None"

section \<open>Request and response\<close>

record node =
  node_id :: string
  node_kind :: string

record edge =
  edge_kind :: string
  edge_source_id :: string
  edge_target_id :: "string option"

text \<open>
  The keys a stimulus event dict may carry. The injector reads \<^verbatim>\<open>time_ms\<close>,
  \<^verbatim>\<open>block_id\<close>, \<^verbatim>\<open>target_id\<close>, \<^verbatim>\<open>signal_type\<close> and \<^verbatim>\<open>value\<close>; any other key, such as
  \<^verbatim>\<open>target_block_id\<close>, is carried by the dict and never read.
\<close>

record stimulus_event =
  ev_time_ms :: "real option"
  ev_block_id :: "string option"
  ev_target_id :: "string option"
  ev_target_block_id :: "string option"
  ev_signal_type :: "string option"
  ev_value :: pyval

record params =
  processing_time_ms :: "real option"
  failure_rate :: "real option"
  queue_capacity :: "real option"
  throughput_per_sec :: "real option"

text \<open>The item a block takes from its Store: a stimulus dict or a forwarded sequence number.\<close>

datatype item = Stimulus string pyval | Forwarded nat

text \<open>
  What \<^verbatim>\<open>exec(script, {}, local_ctx)\<close> leaves behind: an exception, a \<^verbatim>\<open>local_ctx\<close> without
  \<^verbatim>\<open>result\<close>, a \<^verbatim>\<open>result\<close> without \<^verbatim>\<open>.get\<close>, or a dict with optional \<^verbatim>\<open>failed\<close> and
  \<^verbatim>\<open>processing_time_ms\<close> entries.
\<close>

datatype script_outcome =
    ScriptRaised
  | ResultMissing
  | ResultNotDict
  | ResultDict "pyval option" "pyval option"

text \<open>A script is its effect on \<^verbatim>\<open>local_ctx\<close>, as a function of the item and \<^verbatim>\<open>env_now\<close>.\<close>

type_synonym script = "item \<Rightarrow> real \<Rightarrow> script_outcome"

record block_behavior =
  sim_params :: "params option"
  sim_script :: "script option"

record project =
  nodes :: "node list"
  edges :: "edge list"

record scenario =
  duration_ms :: "real option"
  events :: "stimulus_event list"


record block_metrics =
  utilization :: real
  queue_depth :: nat
  processed_count :: int
  failures :: int

text \<open>
  The \<^verbatim>\<open>detail\<close> text of a timeline entry is a format string; the model keeps the
  arguments it is rendered from.
\<close>

datatype detail = ItemFailed nat real | ItemDone nat real | Signal string

record timeline_entry =
  timestamp_ms :: real
  entry_block_id :: string
  event_type :: string
  entry_detail :: detail

datatype sim_error = NegativeDelay real | BadCapacity int | BadUntil real | NoScheduledEvents

text \<open>
  The entries of \<^verbatim>\<open>errors\<close>: the advisory of the deterministic path, and the message and
  traceback of an exception caught by \<^verbatim>\<open>process\<close>.
\<close>

datatype error_entry = SimPyNotInstalled | ExcMessage sim_error | ExcTraceback sim_error

record response =
  status :: string
  metrics :: "(string \<times> block_metrics) list"
  timeline :: "timeline_entry list"
  errors :: "error_entry list"

text \<open>\<^verbatim>\<open>d[k] = v\<close> on an insertion-ordered dict.\<close>

fun dict_set :: "string \<Rightarrow> 'v \<Rightarrow> (string \<times> 'v) list \<Rightarrow> (string \<times> 'v) list" where
  "dict_set k v [] = [(k, v)]"
| "dict_set k v ((k', v') # d) = (if k = k' then (k, v) # d else (k', v') # dict_set k v d)"

definition no_params :: params where
  "no_params = \<lparr>processing_time_ms = None, failure_rate = None,
                 queue_capacity = None, throughput_per_sec = None\<rparr>"

definition no_behavior :: block_behavior where
  "no_behavior = \<lparr>sim_params = None, sim_script = None\<rparr>"

text \<open>\<^verbatim>\<open>block_behaviors.get(block_id) or {}\<close> and \<^verbatim>\<open>behavior.get("sim_params") or {}\<close>.\<close>

definition behavior_of :: "(string \<rightharpoonup> block_behavior) \<Rightarrow> string \<Rightarrow> block_behavior" where
  "behavior_of bb b = (case bb b of None \<Rightarrow> no_behavior | Some h \<Rightarrow> h)"

definition params_of :: "(string \<rightharpoonup> block_behavior) \<Rightarrow> string \<Rightarrow> params" where
  "params_of bb b = (case sim_params (behavior_of bb b) of None \<Rightarrow> no_params | Some p \<Rightarrow> p)"

section \<open>Deterministic fallback\<close>

text \<open>The local \<^verbatim>\<open>processed\<close> of \<^verbatim>\<open>run_deterministic\<close>, for one block.\<close>

definition det_processed :: "real \<Rightarrow> params \<Rightarrow> int" where
  "det_processed dur p =
     (let ptm = or_default (processing_time_ms p) 100;
          slow = (if 0 < ptm then py_int (dur / ptm) else 0)
      in case throughput_per_sec p of
           None \<Rightarrow> slow
         | Some tp \<Rightarrow> if tp \<noteq> 0 then py_int (tp * (dur / 1000)) else slow)"

definition det_failures :: "real \<Rightarrow> params \<Rightarrow> int" where
  "det_failures dur p =
     py_int (of_int (det_processed dur p) * or_default (failure_rate p) 0)"

definition det_metrics :: "real \<Rightarrow> params \<Rightarrow> block_metrics" where
  "det_metrics dur p =
     (let ptm = or_default (processing_time_ms p) 100;
          processed = det_processed dur p;
          fails = det_failures dur p;
          util = (if 0 < dur then min (ptm * of_int processed / dur) 1 else 0)
      in \<lparr>utilization = py_round4 util, queue_depth = 0,
          processed_count = max 0 (processed - fails), failures = fails\<rparr>)"

text \<open>The loop over \<^verbatim>\<open>nodes\<close>, with the metrics dict as accumulator.\<close>

fun det_loop ::
  "real \<Rightarrow> (string \<rightharpoonup> block_behavior) \<Rightarrow> node list \<Rightarrow>
   (string \<times> block_metrics) list \<Rightarrow> (string \<times> block_metrics) list" where
  "det_loop dur bb [] m = m"
| "det_loop dur bb (n # ns) m =
     (if node_kind n \<noteq> ''block'' then det_loop dur bb ns m
      else det_loop dur bb ns (dict_set (node_id n) (det_metrics dur (params_of bb (node_id n))) m))"

definition run_deterministic ::
  "project \<Rightarrow> scenario \<Rightarrow> (string \<rightharpoonup> block_behavior) \<Rightarrow> response" where
  "run_deterministic pj sc bb =
     (let dur = or_default (duration_ms sc) 10000
      in \<lparr>status = ''complete'', metrics = det_loop dur bb (nodes pj) [],
          timeline = [], errors = [SimPyNotInstalled]\<rparr>)"

section \<open>The scheduler: SimPy's environment, events and Store\<close>

text \<open>
  \<^verbatim>\<open>run_with_simpy\<close> drives its generators with the SimPy library. What the model takes
  from SimPy:
  \<^item> \<^verbatim>\<open>env.schedule\<close> pushes \<^verbatim>\<open>(now + delay, priority, eid, event)\<close> on a heap, \<^verbatim>\<open>eid\<close>
    counting up; \<^verbatim>\<open>env.step\<close> pops the least entry, sets \<^verbatim>\<open>now\<close> to its time and runs the
    event's callbacks;
  \<^item> \<^verbatim>\<open>env.process\<close> schedules an \<^verbatim>\<open>Initialize\<close> event with priority \<^verbatim>\<open>URGENT\<close> that starts
    the generator; a generator that yields an event is resumed by that event's callback;
    one that raises makes its process event fail, and \<^verbatim>\<open>step\<close> re-raises when it reaches
    that event;
  \<^item> \<^verbatim>\<open>env.timeout(d)\<close> raises \<^verbatim>\<open>ValueError\<close> for \<^verbatim>\<open>d < 0\<close> and otherwise schedules itself
    after \<^verbatim>\<open>d\<close>;
  \<^item> \<^verbatim>\<open>store.put(v)\<close> with room appends \<^verbatim>\<open>v\<close> and schedules the put event, whose callback
    \<^verbatim>\<open>_trigger_get\<close> serves a waiting get when the put event is processed;
    \<^verbatim>\<open>store.get()\<close> queues the request and runs \<^verbatim>\<open>_trigger_get\<close> at once; a served get
    removes the head item and schedules the get event, which resumes the getter;
  \<^item> \<^verbatim>\<open>env.run(until=t)\<close> raises \<^verbatim>\<open>ValueError\<close> for \<^verbatim>\<open>t <= now\<close>, schedules a stop event at
    \<^verbatim>\<open>t\<close> with priority \<^verbatim>\<open>URGENT\<close> and steps until that event is processed.
\<close>

text \<open>
  The state of the process-global generator behind \<^verbatim>\<open>random.random()\<close> is the sequence of
  draws it will produce; a draw takes the first and leaves the rest. The engine never
  seeds it.
\<close>

type_synonym rng = "nat \<Rightarrow> real"

definition random_draw :: "rng \<Rightarrow> real \<times> rng" where
  "random_draw g = (g 0, \<lambda>n. g (Suc n))"

text \<open>
  A \<^verbatim>\<open>simpy.Store\<close>. Its only consumer is the block's own process, so the get queue holds at
  most one request: \<open>get_waiting\<close>. Every \<^verbatim>\<open>put\<close> of the engine is guarded by
  \<^verbatim>\<open>len(items) < capacity\<close>, so the put queue stays empty and is not represented.
\<close>

record store =
  items :: "item list"
  capacity :: int
  get_waiting :: bool

text \<open>Where a block's generator is suspended, with the locals \<^verbatim>\<open>start\<close> and \<^verbatim>\<open>failed\<close>.\<close>

datatype phase = Waiting | Processing real bool

record block_state =
  phase :: phase
  item_seq :: nat
  cnt_processed :: nat
  cnt_failures :: nat
  busy_time :: real

datatype sim_event =
    InitBlock string
  | InitInjector
  | Until
  | GetDone string item
  | PutDone string
  | BlockTimeout string
  | InjectorTimeout
  | ProcessEnded
  | ProcessFailed sim_error

text \<open>A heap entry \<^verbatim>\<open>(time, priority, eid, event)\<close>; \<^verbatim>\<open>URGENT = 0\<close>, \<^verbatim>\<open>NORMAL = 1\<close>.\<close>

type_synonym entry = "real \<times> nat \<times> nat \<times> sim_event"

record env =
  now :: real
  queue :: "entry list"
  next_eid :: nat
  stores :: "(string \<times> store) list"
  blocks :: "(string \<times> block_state) list"
  pending :: "stimulus_event list"
  sim_timeline :: "timeline_entry list"
  rng_state :: rng

fun entry_less :: "entry \<Rightarrow> entry \<Rightarrow> bool" where
  "entry_less (t1, p1, i1, _) (t2, p2, i2, _) =
     (t1 < t2 \<or> (t1 = t2 \<and> (p1 < p2 \<or> (p1 = p2 \<and> i1 < i2))))"

text \<open>The heap is kept as the list of its entries in the order \<^verbatim>\<open>heappop\<close> returns them.\<close>

fun heappush :: "entry \<Rightarrow> entry list \<Rightarrow> entry list" where
  "heappush e [] = [e]"
| "heappush e (x # xs) = (if entry_less e x then e # x # xs else x # heappush e xs)"

text \<open>\<^verbatim>\<open>env.schedule(event, priority, delay)\<close>.\<close>

definition schedule :: "nat \<Rightarrow> real \<Rightarrow> sim_event \<Rightarrow> env \<Rightarrow> env" where
  "schedule prio delay ev s =
     s\<lparr>queue := heappush (now s + delay, prio, next_eid s, ev) (queue s),
       next_eid := Suc (next_eid s)\<rparr>"

text \<open>
  \<^verbatim>\<open>Store._trigger_get\<close>: a waiting get takes the head item and succeeds (its event is
  scheduled at the current time).
\<close>

definition trigger_get :: "string \<Rightarrow> env \<Rightarrow> env" where
  "trigger_get b s =
     (case map_of (stores s) b of
        None \<Rightarrow> s
      | Some st \<Rightarrow>
          if get_waiting st then
            (case items st of
               [] \<Rightarrow> s
             | x # xs \<Rightarrow>
                 schedule 1 0 (GetDone b x)
                   (s\<lparr>stores := dict_set b (st\<lparr>items := xs, get_waiting := False\<rparr>) (stores s)\<rparr>))
          else s)"

text \<open>\<^verbatim>\<open>store.get()\<close>: the request joins the get queue and \<^verbatim>\<open>_trigger_get\<close> runs at once.\<close>

definition store_get :: "string \<Rightarrow> env \<Rightarrow> env" where
  "store_get b s =
     (case map_of (stores s) b of
        None \<Rightarrow> s
      | Some st \<Rightarrow>
          trigger_get b (s\<lparr>stores := dict_set b (st\<lparr>get_waiting := True\<rparr>) (stores s)\<rparr>))"

text \<open>
  \<^verbatim>\<open>if len(store.items) < store.capacity: store.put(v)\<close>: the item is appended and the put
  event succeeds; its callback \<^verbatim>\<open>_trigger_get\<close> runs when the event is processed. The
  result tells whether the item was accepted.
\<close>

definition put_if_room :: "string \<Rightarrow> item \<Rightarrow> env \<Rightarrow> env \<times> bool" where
  "put_if_room t v s =
     (case map_of (stores s) t of
        None \<Rightarrow> (s, False)
      | Some st \<Rightarrow>
          if int (length (items st)) < capacity st then
            (schedule 1 0 (PutDone t)
               (s\<lparr>stores := dict_set t (st\<lparr>items := items st @ [v]\<rparr>) (stores s)\<rparr>), True)
          else (s, False))"

section \<open>Processing policy\<close>

text \<open>
  Reading \<^verbatim>\<open>local_ctx["result"]\<close> after \<^verbatim>\<open>exec\<close>, inside the \<^verbatim>\<open>try\<close>: any exception gives
  \<^verbatim>\<open>failed = False\<close> and \<^verbatim>\<open>proc_time = processing_time_ms\<close>.
\<close>

definition script_result :: "real \<Rightarrow> script_outcome \<Rightarrow> bool \<times> real" where
  "script_result ptm out =
     (case out of
        ScriptRaised \<Rightarrow> (False, ptm)
      | ResultMissing \<Rightarrow> (False, ptm)
      | ResultNotDict \<Rightarrow> (False, ptm)
      | ResultDict f t \<Rightarrow>
          (let failed = (case f of None \<Rightarrow> False | Some v \<Rightarrow> py_bool v)
           in case t of
                None \<Rightarrow> (failed, ptm)
              | Some v \<Rightarrow> (case py_float v of None \<Rightarrow> (False, ptm) | Some x \<Rightarrow> (failed, x))))"

text \<open>The branch \<^verbatim>\<open>if script: ... else: ...\<close> of \<^verbatim>\<open>block_process\<close>: \<open>(failed, proc_time)\<close>.\<close>

definition decide ::
  "(string \<rightharpoonup> block_behavior) \<Rightarrow> string \<Rightarrow> item \<Rightarrow> real \<Rightarrow> rng \<Rightarrow> (bool \<times> real) \<times> rng" where
  "decide bb b it t g =
     (let p = params_of bb b;
          ptm = or_default (processing_time_ms p) 100;
          fr = or_default (failure_rate p) 0
      in case sim_script (behavior_of bb b) of
           Some sc \<Rightarrow> (script_result ptm (sc it t), g)
         | None \<Rightarrow> (let (d, g') = random_draw g in ((d < fr, ptm), g')))"

section \<open>Block process\<close>

text \<open>
  \<^verbatim>\<open>block_process\<close> resumed with an item: from \<^verbatim>\<open>item_seq += 1\<close> to \<^verbatim>\<open>yield env.timeout(proc_time)\<close>.
  A negative delay raises \<^verbatim>\<open>ValueError\<close>, which only \<^verbatim>\<open>sp.Interrupt\<close> would be caught for: the
  process fails, and its failure event aborts the run when the environment reaches it.
\<close>

definition block_take ::
  "(string \<rightharpoonup> block_behavior) \<Rightarrow> string \<Rightarrow> item \<Rightarrow> env \<Rightarrow> env" where
  "block_take bb b it s =
     (case map_of (blocks s) b of
        None \<Rightarrow> s
      | Some bs \<Rightarrow>
          (let ((failed, proc_time), g') = decide bb b it (now s) (rng_state s);
               bs' = bs\<lparr>phase := Processing (now s) failed, item_seq := Suc (item_seq bs)\<rparr>;
               s' = s\<lparr>blocks := dict_set b bs' (blocks s), rng_state := g'\<rparr>
           in if proc_time < 0 then schedule 1 0 (ProcessFailed (NegativeDelay proc_time)) s'
              else schedule 1 proc_time (BlockTimeout b) s'))"

text \<open>The loop over \<^verbatim>\<open>edges\<close> that forwards \<^verbatim>\<open>item_seq\<close> downstream.\<close>

fun forward :: "edge list \<Rightarrow> string \<Rightarrow> nat \<Rightarrow> env \<Rightarrow> env" where
  "forward [] b n s = s"
| "forward (e # es) b n s =
     forward es b n
       (if edge_kind e = ''connects'' \<and> edge_source_id e = b then
          (case edge_target_id e of
             None \<Rightarrow> s
           | Some t \<Rightarrow> fst (put_if_room t (Forwarded n) s))
        else s)"

text \<open>
  \<^verbatim>\<open>block_process\<close> resumed after its timeout: the counters, the timeline entry, the
  forwarding, and the next \<^verbatim>\<open>store.get()\<close>.
\<close>

definition block_finish :: "edge list \<Rightarrow> string \<Rightarrow> env \<Rightarrow> env" where
  "block_finish es b s =
     (case map_of (blocks s) b of
        None \<Rightarrow> s
      | Some bs \<Rightarrow>
          (case phase bs of
             Waiting \<Rightarrow> s
           | Processing start failed \<Rightarrow>
               (let elapsed = now s - start;
                    bs1 = bs\<lparr>phase := Waiting, busy_time := busy_time bs + elapsed\<rparr>
                in if failed then
                     store_get b
                       (s\<lparr>blocks := dict_set b (bs1\<lparr>cnt_failures := Suc (cnt_failures bs)\<rparr>) (blocks s),
                          sim_timeline := sim_timeline s @
                            [\<lparr>timestamp_ms = now s, entry_block_id = b, event_type = ''failure'',
                              entry_detail = ItemFailed (item_seq bs) elapsed\<rparr>]\<rparr>)
                   else
                     store_get b
                       (forward es b (item_seq bs)
                          (s\<lparr>blocks := dict_set b (bs1\<lparr>cnt_processed := Suc (cnt_processed bs)\<rparr>) (blocks s),
                             sim_timeline := sim_timeline s @
                               [\<lparr>timestamp_ms = now s, entry_block_id = b, event_type = ''processed'',
                                 entry_detail = ItemDone (item_seq bs) elapsed\<rparr>]\<rparr>)))))"

section \<open>Event injector\<close>

text \<open>\<^verbatim>\<open>float(e.get("time_ms") or 0)\<close>.\<close>

definition ev_time :: "stimulus_event \<Rightarrow> real" where
  "ev_time ev = or_default (ev_time_ms ev) 0"

text \<open>
  \<^verbatim>\<open>target_id = ev.get("block_id") or ev.get("target_id")\<close>, followed by the test
  \<^verbatim>\<open>if target_id\<close>: \<open>None\<close> when the result is missing or empty.
\<close>

definition ev_target :: "stimulus_event \<Rightarrow> string option" where
  "ev_target ev =
     (let first = (case ev_block_id ev of None \<Rightarrow> None | Some b \<Rightarrow> if b = [] then None else Some b)
      in case first of
           Some b \<Rightarrow> Some b
         | None \<Rightarrow> (case ev_target_id ev of None \<Rightarrow> None | Some t \<Rightarrow> if t = [] then None else Some t))"

text \<open>\<^verbatim>\<open>ev.get("signal_type", "trigger")\<close>.\<close>

definition ev_signal :: "stimulus_event \<Rightarrow> string" where
  "ev_signal ev = (case ev_signal_type ev of None \<Rightarrow> ''trigger'' | Some g \<Rightarrow> g)"

text \<open>The body of the injector's loop after its timeout: the guarded put and the timeline entry.\<close>

definition deliver :: "stimulus_event \<Rightarrow> env \<Rightarrow> env" where
  "deliver ev s =
     (case ev_target ev of
        None \<Rightarrow> s
      | Some t \<Rightarrow>
          (case put_if_room t (Stimulus (ev_signal ev) (ev_value ev)) s of
             (s', accepted) \<Rightarrow>
               if accepted then
                 s'\<lparr>sim_timeline := sim_timeline s' @
                      [\<lparr>timestamp_ms = now s', entry_block_id = t, event_type = ''stimulus'',
                        entry_detail = Signal (ev_signal ev)\<rparr>]\<rparr>
               else s'))"

text \<open>
  The head of the injector's loop: the timeout until the next event, or the end of the
  generator.
\<close>

definition injector_wait :: "env \<Rightarrow> env" where
  "injector_wait s =
     (case pending s of
        [] \<Rightarrow> schedule 1 0 ProcessEnded s
      | ev # _ \<Rightarrow> schedule 1 (max 0 (ev_time ev - now s)) InjectorTimeout s)"

definition event_injector_start :: "stimulus_event list \<Rightarrow> env \<Rightarrow> env" where
  "event_injector_start evs s = injector_wait (s\<lparr>pending := sort_key ev_time evs\<rparr>)"

definition event_injector_resume :: "env \<Rightarrow> env" where
  "event_injector_resume s =
     (case pending s of
        [] \<Rightarrow> s
      | ev # rest \<Rightarrow> injector_wait ((deliver ev s)\<lparr>pending := rest\<rparr>))"

section \<open>Running the environment\<close>

datatype step_result = Continue env | Stopped env | Raised sim_error env

text \<open>The callbacks of each kind of event.\<close>

fun fire ::
  "edge list \<Rightarrow> stimulus_event list \<Rightarrow> (string \<rightharpoonup> block_behavior) \<Rightarrow> sim_event \<Rightarrow> env \<Rightarrow> step_result" where
  "fire es evs bb (InitBlock b) s = Continue (store_get b s)"
| "fire es evs bb InitInjector s = Continue (event_injector_start evs s)"
| "fire es evs bb Until s = Stopped s"
| "fire es evs bb (GetDone b it) s = Continue (block_take bb b it s)"
| "fire es evs bb (PutDone b) s = Continue (trigger_get b s)"
| "fire es evs bb (BlockTimeout b) s = Continue (block_finish es b s)"
| "fire es evs bb InjectorTimeout s = Continue (event_injector_resume s)"
| "fire es evs bb ProcessEnded s = Continue s"
| "fire es evs bb (ProcessFailed e) s = Raised e s"

datatype run_result = Halted env | Aborted sim_error env

text \<open>\<^verbatim>\<open>env.step()\<close>: pop the earliest entry, advance the clock, run the callbacks.\<close>

definition step ::
  "edge list \<Rightarrow> stimulus_event list \<Rightarrow> (string \<rightharpoonup> block_behavior) \<Rightarrow> env \<Rightarrow> step_result" where
  "step es evs bb s =
     (case queue s of
        [] \<Rightarrow> Raised NoScheduledEvents s
      | (t, p, i, ev) # q \<Rightarrow> fire es evs bb ev (s\<lparr>now := t, queue := q\<rparr>))"

text \<open>
  \<^verbatim>\<open>while True: self.step()\<close>. The loop need not end (a script may return a zero
  duration on a cycle of edges), so it runs on fuel: \<open>None\<close> is a run that has not returned
  within \<open>n\<close> events.
\<close>

fun run_loop ::
  "nat \<Rightarrow> edge list \<Rightarrow> stimulus_event list \<Rightarrow> (string \<rightharpoonup> block_behavior) \<Rightarrow> env \<Rightarrow> run_result option" where
  "run_loop 0 es evs bb s = None"
| "run_loop (Suc n) es evs bb s =
     (case step es evs bb s of
        Continue s' \<Rightarrow> run_loop n es evs bb s'
      | Stopped s' \<Rightarrow> Some (Halted s')
      | Raised e s' \<Rightarrow> Some (Aborted e s'))"

section \<open>run_with_simpy\<close>

text \<open>The keys of \<^verbatim>\<open>block_nodes\<close>, in insertion order.\<close>

fun block_ids :: "node list \<Rightarrow> string list \<Rightarrow> string list" where
  "block_ids [] acc = acc"
| "block_ids (n # ns) acc =
     block_ids ns (if node_kind n = ''block'' \<and> node_id n \<notin> set acc then acc @ [node_id n] else acc)"

text \<open>\<^verbatim>\<open>int(params.get("queue_capacity") or 100)\<close>.\<close>

definition capacity_of :: "(string \<rightharpoonup> block_behavior) \<Rightarrow> string \<Rightarrow> int" where
  "capacity_of bb b = py_int (or_default (queue_capacity (params_of bb b)) 100)"

text \<open>Creating the Stores; \<^verbatim>\<open>sp.Store\<close> raises \<^verbatim>\<open>ValueError\<close> on a capacity that is not positive.\<close>

fun make_stores ::
  "(string \<rightharpoonup> block_behavior) \<Rightarrow> string list \<Rightarrow> sim_error + (string \<times> store) list" where
  "make_stores bb [] = Inr []"
| "make_stores bb (b # bs) =
     (if capacity_of bb b \<le> 0 then Inl (BadCapacity (capacity_of bb b))
      else (case make_stores bb bs of
              Inl e \<Rightarrow> Inl e
            | Inr ss \<Rightarrow> Inr ((b, \<lparr>items = [], capacity = capacity_of bb b, get_waiting = False\<rparr>) # ss)))"

definition new_block :: block_state where
  "new_block = \<lparr>phase = Waiting, item_seq = 0, cnt_processed = 0, cnt_failures = 0, busy_time = 0\<rparr>"

text \<open>\<^verbatim>\<open>env.process(block_process(env, bid, store))\<close> for every Store, in order.\<close>

fun launch :: "string list \<Rightarrow> env \<Rightarrow> env" where
  "launch [] s = s"
| "launch (b # bs) s = launch bs (schedule 0 0 (InitBlock b) s)"

definition initial_env :: "rng \<Rightarrow> (string \<times> store) list \<Rightarrow> stimulus_event list \<Rightarrow> env" where
  "initial_env g ss evs =
     (let s0 = \<lparr>now = 0, queue = [], next_eid = 0, stores = ss,
                blocks = map (\<lambda>(b, _). (b, new_block)) ss, pending = [],
                sim_timeline = [], rng_state = g\<rparr>;
          s1 = launch (map fst ss) s0
      in if evs \<noteq> [] then schedule 0 0 InitInjector s1 else s1)"

text \<open>The metrics of one block, from its counters and its Store.\<close>

definition block_metrics_of :: "real \<Rightarrow> env \<Rightarrow> string \<Rightarrow> block_metrics" where
  "block_metrics_of dur s b =
     (let c = (case map_of (blocks s) b of None \<Rightarrow> new_block | Some c \<Rightarrow> c);
          util = (if 0 < dur then busy_time c / dur else 0)
      in \<lparr>utilization = py_round4 (min util 1),
          queue_depth = (case map_of (stores s) b of None \<Rightarrow> 0 | Some st \<Rightarrow> length (items st)),
          processed_count = int (cnt_processed c),
          failures = int (cnt_failures c)\<rparr>)"

definition simpy_response :: "real \<Rightarrow> env \<Rightarrow> response" where
  "simpy_response dur s =
     \<lparr>status = ''complete'',
      metrics = map (\<lambda>(b, _). (b, block_metrics_of dur s b)) (stores s),
      timeline = sim_timeline s, errors = []\<rparr>"

text \<open>
  The whole of \<^verbatim>\<open>run_with_simpy\<close>: an exception (\<open>Inl\<close>) or the response, and the
  generator's state afterwards. \<^verbatim>\<open>env.run(until=duration_ms)\<close> raises \<^verbatim>\<open>ValueError\<close> when
  \<^verbatim>\<open>duration_ms\<close> is not after the current time, and otherwise schedules the stop event
  with priority \<^verbatim>\<open>URGENT\<close>.
\<close>

definition run_with_simpy ::
  "nat \<Rightarrow> rng \<Rightarrow> project \<Rightarrow> scenario \<Rightarrow> (string \<rightharpoonup> block_behavior) \<Rightarrow>
   ((sim_error + response) \<times> rng) option" where
  "run_with_simpy fuel g pj sc bb =
     (let dur = or_default (duration_ms sc) 10000
      in case make_stores bb (block_ids (nodes pj) []) of
           Inl e \<Rightarrow> Some (Inl e, g)
         | Inr ss \<Rightarrow>
             (let s0 = initial_env g ss (events sc)
              in if dur \<le> 0 then Some (Inl (BadUntil dur), g)
                 else (case run_loop fuel (edges pj) (events sc) bb (schedule 0 dur Until s0) of
                         None \<Rightarrow> None
                       | Some (Aborted e s) \<Rightarrow> Some (Inl e, rng_state s)
                       | Some (Halted s) \<Rightarrow> Some (Inr (simpy_response dur s), rng_state s))))"

section \<open>Dispatch\<close>









section \<open>Notions the properties are stated with\<close>


text \<open>Every Store holds at most as many items as the capacity it was created with.\<close>

definition stores_bounded :: "(string \<rightharpoonup> block_behavior) \<Rightarrow> env \<Rightarrow> bool" where
  "stores_bounded bb s =
     (\<forall>(b, st) \<in> set (stores s).
        int (length (items st)) \<le> capacity st \<and> capacity st = capacity_of bb b)"

text \<open>The environment after \<open>k\<close> events of a run that is still going.\<close>

fun state_after ::
  "nat \<Rightarrow> edge list \<Rightarrow> stimulus_event list \<Rightarrow> (string \<rightharpoonup> block_behavior) \<Rightarrow> env \<Rightarrow> env option" where
  "state_after 0 es evs bb s = Some s"
| "state_after (Suc k) es evs bb s =
     (case step es evs bb s of Continue s' \<Rightarrow> state_after k es evs bb s' | _ \<Rightarrow> None)"

text \<open>A block in its processing phase started no later than \<open>t\<close>.\<close>

fun started_by :: "phase \<Rightarrow> real \<Rightarrow> bool" where
  "started_by Waiting t = True"
| "started_by (Processing st f) t = (st \<le> t)"

text \<open>
  The clock never runs backwards: every pending entry is due at or after the current
  time, the heap is in time order, busy times are not negative and no block started in
  the future.
\<close>

definition time_ok :: "env \<Rightarrow> bool" where
  "time_ok s =
     ((\<forall>e \<in> set (queue s). now s \<le> fst e)
      \<and> sorted_wrt (\<lambda>a b. fst a \<le> fst b) (queue s)
      \<and> (\<forall>(b, c) \<in> set (blocks s).
            0 \<le> busy_time c \<and> started_by (phase c) (now s)))"






text \<open>
  A stimulus event the injector skips: it has no target, or its target has no Store.
\<close>

definition untargeted :: "(string \<times> store) list \<Rightarrow> stimulus_event \<Rightarrow> bool" where
  "untargeted ss ev = (case ev_target ev of None \<Rightarrow> True | Some t \<Rightarrow> map_of ss t = None)"

text \<open>The events of a run in which no item ever enters a Store.\<close>

fun harmless :: "sim_event \<Rightarrow> bool" where
  "harmless (GetDone b it) = False"
| "harmless (PutDone b) = False"
| "harmless (BlockTimeout b) = False"
| "harmless (ProcessFailed e) = False"
| "harmless ev = True"

definition entry_event :: "entry \<Rightarrow> sim_event" where
  "entry_event e = snd (snd (snd e))"

text \<open>
  Nothing has happened and nothing can: the Stores are empty, the timeline is empty, the
  counters are untouched, every stimulus still to come is skipped, and the stop event is
  pending.
\<close>

definition quiet :: "stimulus_event list \<Rightarrow> env \<Rightarrow> bool" where
  "quiet evs s =
     ((\<forall>(b, st) \<in> set (stores s). items st = [])
      \<and> sim_timeline s = []
      \<and> (\<forall>(b, c) \<in> set (blocks s). c = new_block)
      \<and> (\<forall>ev \<in> set (pending s) \<union> set evs. untargeted (stores s) ev)
      \<and> (\<forall>e \<in> set (queue s). harmless (entry_event e))
      \<and> (\<exists>e \<in> set (queue s). entry_event e = Until))"

text \<open>A bound on the events a quiet run still has to process.\<close>

definition work :: "stimulus_event list \<Rightarrow> env \<Rightarrow> nat" where
  "work evs s = length (queue s) + length (pending s)
      + (length evs + 1) * length (filter (\<lambda>e. entry_event e = InitInjector) (queue s))"

section \<open>The closed form the specification gives for the approximator\<close>


section \<open>Example requests\<close>

definition block_A :: node where
  "block_A = \<lparr>node_id = ''A'', node_kind = ''block''\<rparr>"

definition block_B :: node where
  "block_B = \<lparr>node_id = ''B'', node_kind = ''block''\<rparr>"

definition only_A :: project where
  "only_A = \<lparr>nodes = [block_A], edges = []\<rparr>"

definition A_and_B :: project where
  "A_and_B = \<lparr>nodes = [block_A, block_B], edges = []\<rparr>"

text \<open>The event \<^verbatim>\<open>{"time_ms": t, "block_id": b}\<close>.\<close>

definition stimulus_at :: "real \<Rightarrow> string \<Rightarrow> stimulus_event" where
  "stimulus_at t b = \<lparr>ev_time_ms = Some t, ev_block_id = Some b, ev_target_id = None,
     ev_target_block_id = None, ev_signal_type = None, ev_value = PyNone\<rparr>"

text \<open>A generator whose every draw is one half.\<close>

definition half_draws :: rng where
  "half_draws n = 1 / 2"



definition one_slot :: params where
  "one_slot = \<lparr>processing_time_ms = Some 100, failure_rate = None,
      queue_capacity = Some 1, throughput_per_sec = None\<rparr>"

definition zero_capacity :: params where
  "zero_capacity = \<lparr>processing_time_ms = Some 100, failure_rate = None,
      queue_capacity = Some 0, throughput_per_sec = None\<rparr>"



text \<open>The behaviors dict with one entry, for block A.\<close>

definition behaviors_A :: "params \<Rightarrow> script option \<Rightarrow> (string \<rightharpoonup> block_behavior)" where
  "behaviors_A p sc = [''A'' \<mapsto> \<lparr>sim_params = Some p, sim_script = sc\<rparr>]"

text \<open>The event \<^verbatim>\<open>{"time_ms": 0, "block_id": "B", "target_block_id": "A"}\<close>.\<close>

definition stimulus_named :: stimulus_event where
  "stimulus_named = \<lparr>ev_time_ms = Some 0, ev_block_id = Some ''B'', ev_target_id = None,
     ev_target_block_id = Some ''A'', ev_signal_type = None, ev_value = PyNone\<rparr>"

text \<open>The event \<^verbatim>\<open>{"time_ms": 0, "target_block_id": "A"}\<close>.\<close>

definition stimulus_target_block_only :: stimulus_event where
  "stimulus_target_block_only = \<lparr>ev_time_ms = Some 0, ev_block_id = None, ev_target_id = None,
     ev_target_block_id = Some ''A'', ev_signal_type = None, ev_value = PyNone\<rparr>"



text \<open>Block A idle, waiting on its empty one-slot Store, and block A busy with the Store full.\<close>

definition idle_env :: env where
  "idle_env = \<lparr>now = 5, queue = [], next_eid = 3,
      stores = [(''A'', \<lparr>items = [], capacity = 1, get_waiting = True\<rparr>)],
      blocks = [(''A'', new_block)], pending = [], sim_timeline = [], rng_state = half_draws\<rparr>"


section \<open>Dictionaries and conversions\<close>

lemma map_of_dict_set: "map_of (dict_set k v d) = (map_of d)(k \<mapsto> v)"
  by (induction d) (auto simp: fun_eq_iff)

lemma set_dict_set: "set (dict_set k v d) \<subseteq> insert (k, v) (set d)"
  by (induction d) (auto split: if_splits)



section \<open>The deterministic fallback\<close>




text \<open>
  C2: a request with \<^verbatim>\<open>duration_ms = 0\<close> runs for the default 10000 ms on both paths. The
  approximator reports 100 processed items and utilization 1 for a block with no
  parameters; the full simulation processes a stimulus delivered at time 0.
\<close>

theorem zero_duration_runs_for_default:
  "run_deterministic only_A \<lparr>duration_ms = Some 0, events = []\<rparr> Map.empty =
     \<lparr>status = ''complete'',
      metrics = [(''A'', \<lparr>utilization = 1, queue_depth = 0, processed_count = 100, failures = 0\<rparr>)],
      timeline = [], errors = [SimPyNotInstalled]\<rparr>
   \<and> map_option fst (run_with_simpy 20 half_draws only_A
         \<lparr>duration_ms = Some 0, events = [stimulus_at 0 ''A'']\<rparr> Map.empty) =
     Some (Inr \<lparr>status = ''complete'',
      metrics = [(''A'', \<lparr>utilization = 1 / 100, queue_depth = 0, processed_count = 1, failures = 0\<rparr>)],
      timeline = [\<lparr>timestamp_ms = 0, entry_block_id = ''A'', event_type = ''stimulus'',
                   entry_detail = Signal ''trigger''\<rparr>,
                  \<lparr>timestamp_ms = 100, entry_block_id = ''A'', event_type = ''processed'',
                   entry_detail = ItemDone 1 100\<rparr>],
      errors = []\<rparr>)"
  by code_simp




section \<open>The event injector\<close>

lemma schedule_fields [simp]:
  "stores (schedule p d e s) = stores s"
  "blocks (schedule p d e s) = blocks s"
  "sim_timeline (schedule p d e s) = sim_timeline s"
  "now (schedule p d e s) = now s"
  "pending (schedule p d e s) = pending s"
  "rng_state (schedule p d e s) = rng_state s"
  by (simp_all add: schedule_def)




text \<open>
  C4, as stated, fails: the injector never reads \<^verbatim>\<open>target_block_id\<close>. The event
  \<^verbatim>\<open>{"time_ms": 0, "block_id": "B", "target_block_id": "A"}\<close> is delivered to B's Store; A
  receives nothing.
\<close>

theorem target_block_id_is_not_read:
  "map_option fst (run_with_simpy 30 half_draws A_and_B
       \<lparr>duration_ms = Some 250, events = [stimulus_named]\<rparr> Map.empty) =
     Some (Inr \<lparr>status = ''complete'',
       metrics = [(''A'', \<lparr>utilization = 0, queue_depth = 0, processed_count = 0, failures = 0\<rparr>),
                  (''B'', \<lparr>utilization = 2 / 5, queue_depth = 0, processed_count = 1, failures = 0\<rparr>)],
       timeline = [\<lparr>timestamp_ms = 0, entry_block_id = ''B'', event_type = ''stimulus'',
                    entry_detail = Signal ''trigger''\<rparr>,
                   \<lparr>timestamp_ms = 100, entry_block_id = ''B'', event_type = ''processed'',
                    entry_detail = ItemDone 1 100\<rparr>],
       errors = []\<rparr>)
   \<and> ev_target_block_id stimulus_named = Some ''A''"
  by code_simp

text \<open>
  C4, amended: a Store changed by the delivery of a stimulus event belongs to the block
  named by the event's \<^verbatim>\<open>block_id\<close>, or by its \<^verbatim>\<open>target_id\<close> when \<^verbatim>\<open>block_id\<close> is absent or
  empty; the change is the stimulus item appended to that Store.
\<close>

theorem injected_store_is_block_id_or_target_id:
  assumes "map_of (stores (deliver ev s)) b \<noteq> map_of (stores s) b"
  shows "ev_target ev = Some b
       \<and> ((ev_block_id ev = Some b \<and> b \<noteq> [])
          \<or> ((ev_block_id ev = None \<or> ev_block_id ev = Some []) \<and> ev_target_id ev = Some b \<and> b \<noteq> []))
       \<and> (\<exists>st. map_of (stores s) b = Some st
             \<and> map_of (stores (deliver ev s)) b =
                 Some (st\<lparr>items := items st @ [Stimulus (ev_signal ev) (ev_value ev)]\<rparr>))"
proof -
  from assms obtain t where t: "ev_target ev = Some t"
    by (cases "ev_target ev") (auto simp: deliver_def)
  from assms t obtain st where
    st: "map_of (stores s) t = Some st" "int (length (items st)) < capacity st"
    by (cases "map_of (stores s) t") (auto simp: deliver_def put_if_room_def split: if_splits)
  have eq: "map_of (stores (deliver ev s)) =
      (map_of (stores s))(t \<mapsto> st\<lparr>items := items st @ [Stimulus (ev_signal ev) (ev_value ev)]\<rparr>)"
    using t st by (simp add: deliver_def put_if_room_def map_of_dict_set)
  have bt: "b = t" using assms eq by (auto split: if_splits)
  have "(ev_block_id ev = Some b \<and> b \<noteq> [])
          \<or> ((ev_block_id ev = None \<or> ev_block_id ev = Some []) \<and> ev_target_id ev = Some b \<and> b \<noteq> [])"
    using t bt by (auto simp: ev_target_def Let_def split: option.splits if_splits)
  then show ?thesis using t bt st eq by simp
qed

theorem injected_store_is_block_id_or_target_id_witness:
  "map_of (stores (deliver (stimulus_at 5 ''A'') idle_env)) ''A'' \<noteq> map_of (stores idle_env) ''A''
   \<and> ev_target (stimulus_at 5 ''A'') = Some ''A''
   \<and> ev_block_id (stimulus_at 5 ''A'') = Some ''A''"
proof -
  have h: "map_of (stores (deliver (stimulus_at 5 ''A'') idle_env)) ''A'' \<noteq> map_of (stores idle_env) ''A''"
    by (simp add: deliver_def put_if_room_def stimulus_at_def ev_target_def ev_signal_def
        idle_env_def schedule_def)
  from injected_store_is_block_id_or_target_id[OF h] h show ?thesis
    by (simp add: stimulus_at_def)
qed

section \<open>The custom policy\<close>






section \<open>Queue depth\<close>

lemma stores_bounded_cong: "stores s' = stores s \<Longrightarrow> stores_bounded bb s' = stores_bounded bb s"
  by (simp add: stores_bounded_def)

lemma stores_bounded_updates [simp]:
  "stores_bounded bb (s\<lparr>now := t\<rparr>) = stores_bounded bb s"
  "stores_bounded bb (s\<lparr>queue := q\<rparr>) = stores_bounded bb s"
  "stores_bounded bb (s\<lparr>next_eid := i\<rparr>) = stores_bounded bb s"
  "stores_bounded bb (s\<lparr>blocks := bs\<rparr>) = stores_bounded bb s"
  "stores_bounded bb (s\<lparr>pending := p\<rparr>) = stores_bounded bb s"
  "stores_bounded bb (s\<lparr>sim_timeline := es\<rparr>) = stores_bounded bb s"
  "stores_bounded bb (s\<lparr>rng_state := g\<rparr>) = stores_bounded bb s"
  by (simp_all add: stores_bounded_def)

lemma stores_bounded_set:
  assumes "stores_bounded bb s" "map_of (stores s) b = Some st"
    "int (length (items st')) \<le> capacity st" "capacity st' = capacity st"
  shows "stores_bounded bb (s\<lparr>stores := dict_set b st' (stores s)\<rparr>)"
proof -
  have "(b, st) \<in> set (stores s)" using assms(2) by (rule map_of_SomeD)
  then have "capacity st = capacity_of bb b" using assms(1) by (auto simp: stores_bounded_def)
  then show ?thesis using assms set_dict_set[of b st' "stores s"]
    by (auto simp: stores_bounded_def)
qed

lemma stores_bounded_look:
  "stores_bounded bb s \<Longrightarrow> map_of (stores s) b = Some st \<Longrightarrow> int (length (items st)) \<le> capacity st"
  by (auto simp: stores_bounded_def dest: map_of_SomeD)

lemma stores_bounded_schedule [simp]: "stores_bounded bb (schedule p d e s) = stores_bounded bb s"
  by (simp add: stores_bounded_def)

lemma stores_bounded_trigger_get: "stores_bounded bb s \<Longrightarrow> stores_bounded bb (trigger_get b s)"
  by (auto simp: trigger_get_def split: option.splits list.splits
      intro!: stores_bounded_set dest: stores_bounded_look)

lemma stores_bounded_store_get: "stores_bounded bb s \<Longrightarrow> stores_bounded bb (store_get b s)"
  by (auto simp: store_get_def split: option.splits
      intro!: stores_bounded_trigger_get stores_bounded_set dest: stores_bounded_look)

lemma stores_bounded_put: "stores_bounded bb s \<Longrightarrow> stores_bounded bb (fst (put_if_room t v s))"
  by (auto simp: put_if_room_def split: option.splits intro!: stores_bounded_set)

lemma stores_bounded_forward: "stores_bounded bb s \<Longrightarrow> stores_bounded bb (forward es b n s)"
  by (induction es arbitrary: s) (auto split: option.splits intro: stores_bounded_put)

lemma stores_bounded_block_take: "stores_bounded bb s \<Longrightarrow> stores_bounded bb (block_take bb b it s)"
  by (auto simp: block_take_def Let_def stores_bounded_def split: option.splits prod.splits)

lemma stores_bounded_block_finish: "stores_bounded bb s \<Longrightarrow> stores_bounded bb (block_finish es b s)"
  by (auto simp: block_finish_def Let_def split: option.splits phase.splits
      intro!: stores_bounded_store_get stores_bounded_forward)

lemma stores_bounded_deliver:
  assumes "stores_bounded bb s"
  shows "stores_bounded bb (deliver ev s)"
proof (cases "ev_target ev")
  case None
  then show ?thesis using assms by (simp add: deliver_def)
next
  case (Some t)
  obtain s' a where p: "put_if_room t (Stimulus (ev_signal ev) (ev_value ev)) s = (s', a)"
    by (cases "put_if_room t (Stimulus (ev_signal ev) (ev_value ev)) s")
  have "stores_bounded bb s'"
    using stores_bounded_put[OF assms, of t "Stimulus (ev_signal ev) (ev_value ev)"] p by simp
  then show ?thesis using Some p
    by (simp add: deliver_def stores_bounded_def)
qed

lemma stores_bounded_injector_wait [simp]: "stores_bounded bb (injector_wait s) = stores_bounded bb s"
  by (auto simp: injector_wait_def split: list.splits)

lemma stores_bounded_fire:
  assumes "stores_bounded bb s"
    and "fire es evs bb ev s = Continue s' \<or> fire es evs bb ev s = Stopped s'"
  shows "stores_bounded bb s'"
  using assms
  by (cases ev)
     (auto simp: event_injector_start_def event_injector_resume_def
           split: list.splits
           intro: stores_bounded_store_get stores_bounded_block_take stores_bounded_trigger_get
             stores_bounded_block_finish stores_bounded_deliver)

lemma stores_bounded_step:
  assumes "stores_bounded bb s"
    and "step es evs bb s = Continue s' \<or> step es evs bb s = Stopped s'"
  shows "stores_bounded bb s'"
proof (cases "queue s")
  case Nil
  then show ?thesis using assms(2) by (simp add: step_def)
next
  case (Cons e q)
  obtain t p i ev where e: "e = (t, p, i, ev)" by (cases e)
  have "stores_bounded bb (s\<lparr>now := t, queue := q\<rparr>)" using assms(1) by simp
  then show ?thesis
    using assms(2) Cons e stores_bounded_fire[of bb "s\<lparr>now := t, queue := q\<rparr>" es evs ev s']
    by (simp add: step_def)
qed


lemma run_loop_invariant:
  assumes "\<And>s s'. I s \<Longrightarrow> step es evs bb s = Continue s' \<or> step es evs bb s = Stopped s' \<Longrightarrow> I s'"
    and "I s" and "run_loop n es evs bb s = Some (Halted s')"
  shows "I s'"
  using assms(2,3)
proof (induction n arbitrary: s)
  case 0
  then show ?case by simp
next
  case (Suc n)
  show ?case
  proof (cases "step es evs bb s")
    case (Continue s1)
    then have "I s1" using assms(1)[OF Suc.prems(1)] by simp
    then show ?thesis using Suc.IH[of s1] Suc.prems(2) Continue by simp
  next
    case (Stopped s1)
    then have "I s1" using assms(1)[OF Suc.prems(1)] by simp
    then show ?thesis using Suc.prems(2) Stopped by simp
  next
    case (Raised e s1)
    then show ?thesis using Suc.prems(2) by simp
  qed
qed

lemma state_after_invariant:
  assumes "\<And>s s'. I s \<Longrightarrow> step es evs bb s = Continue s' \<or> step es evs bb s = Stopped s' \<Longrightarrow> I s'"
    and "I s" and "state_after k es evs bb s = Some s'"
  shows "I s'"
  using assms(2,3)
proof (induction k arbitrary: s)
  case 0
  then show ?case by simp
next
  case (Suc k)
  then obtain s1 where s1: "step es evs bb s = Continue s1" "state_after k es evs bb s1 = Some s'"
    by (auto split: step_result.splits)
  have "I s1" using assms(1)[OF Suc.prems(1)] s1(1) by simp
  then show ?case using Suc.IH s1(2) by simp
qed

lemma make_stores_fresh:
  "make_stores bb ids = Inr ss \<Longrightarrow>
     \<forall>(b, st) \<in> set ss. items st = [] \<and> capacity st = capacity_of bb b \<and> 0 < capacity st"
  by (induction ids arbitrary: ss) (auto split: if_splits sum.splits)

lemma launch_fields [simp]:
  "stores (launch bs s) = stores s"
  "blocks (launch bs s) = blocks s"
  "sim_timeline (launch bs s) = sim_timeline s"
  "now (launch bs s) = now s"
  by (induction bs arbitrary: s) simp_all

lemma initial_env_fields [simp]:
  "stores (initial_env g ss evs) = ss"
  "blocks (initial_env g ss evs) = map (\<lambda>(b, _). (b, new_block)) ss"
  "now (initial_env g ss evs) = 0"
  by (simp_all add: initial_env_def Let_def)

lemma stores_bounded_initial:
  "make_stores bb ids = Inr ss \<Longrightarrow> stores_bounded bb (schedule 0 dur Until (initial_env g ss evs))"
  using make_stores_fresh[of bb ids ss] by (auto simp: stores_bounded_def)

lemma run_with_simpy_halted:
  assumes "run_with_simpy fuel g pj sc bb = Some (Inr r, g')"
  obtains ss s where "make_stores bb (block_ids (nodes pj) []) = Inr ss"
    and "0 < or_default (duration_ms sc) 10000"
    and "run_loop fuel (edges pj) (events sc) bb
           (schedule 0 (or_default (duration_ms sc) 10000) Until (initial_env g ss (events sc))) = Some (Halted s)"
    and "r = simpy_response (or_default (duration_ms sc) 10000) s" and "g' = rng_state s"
  using assms
  by (auto simp: run_with_simpy_def Let_def split: sum.splits if_splits option.splits run_result.splits)

lemma stores_bounded_state_after:
  "stores_bounded bb s \<Longrightarrow> state_after k es evs bb s = Some s' \<Longrightarrow> stores_bounded bb s'"
  using state_after_invariant[of "stores_bounded bb" es evs bb s k s'] stores_bounded_step
  by blast

lemma stores_bounded_run_loop:
  "stores_bounded bb s \<Longrightarrow> run_loop n es evs bb s = Some (Halted s') \<Longrightarrow> stores_bounded bb s'"
  using run_loop_invariant[of "stores_bounded bb" es evs bb s n s'] stores_bounded_step
  by blast

text \<open>
  C6, as stated, fails: \<^verbatim>\<open>queue_capacity = 0\<close> is replaced by the default 100. Block A takes
  the stimulus of time 0; the stimulus of time 10 waits in the Store, whose depth, 1, is
  above the configured 0 when the run halts at 50 ms.
\<close>

theorem zero_capacity_store_holds_an_item:
  "map_option fst (run_with_simpy 30 half_draws only_A
       \<lparr>duration_ms = Some 50, events = [stimulus_at 0 ''A'', stimulus_at 10 ''A'']\<rparr>
       (behaviors_A zero_capacity None)) =
     Some (Inr \<lparr>status = ''complete'',
       metrics = [(''A'', \<lparr>utilization = 0, queue_depth = 1, processed_count = 0, failures = 0\<rparr>)],
       timeline = [\<lparr>timestamp_ms = 0, entry_block_id = ''A'', event_type = ''stimulus'',
                    entry_detail = Signal ''trigger''\<rparr>,
                   \<lparr>timestamp_ms = 10, entry_block_id = ''A'', event_type = ''stimulus'',
                    entry_detail = Signal ''trigger''\<rparr>],
       errors = []\<rparr>)
   \<and> queue_capacity zero_capacity = Some 0"
  by code_simp

text \<open>
  C6, amended: after any number of events of a run, and in the reported metrics, the depth
  of each block's Store is at most the capacity the Store was created with:
  \<^verbatim>\<open>int(queue_capacity)\<close>, or 100 when \<^verbatim>\<open>queue_capacity\<close> is absent or 0.
\<close>

theorem queue_depth_within_capacity:
  assumes "make_stores bb (block_ids (nodes pj) []) = Inr ss"
    and "s0 = schedule 0 dur Until (initial_env g ss (events sc))"
  shows "(state_after k (edges pj) (events sc) bb s0 = Some s \<longrightarrow>
            (\<forall>(b, st) \<in> set (stores s). int (length (items st)) \<le> capacity_of bb b))
       \<and> (run_with_simpy fuel g pj sc bb = Some (Inr r, g') \<longrightarrow>
            (\<forall>(b, m) \<in> set (metrics r). int (queue_depth m) \<le> capacity_of bb b))"
proof (intro conjI impI)
  assume "state_after k (edges pj) (events sc) bb s0 = Some s"
  then have "stores_bounded bb s"
    using stores_bounded_state_after stores_bounded_initial[OF assms(1)] assms(2) by blast
  then show "\<forall>(b, st) \<in> set (stores s). int (length (items st)) \<le> capacity_of bb b"
    by (auto simp: stores_bounded_def)
next
  assume run: "run_with_simpy fuel g pj sc bb = Some (Inr r, g')"
  from run obtain ss' s' where h: "make_stores bb (block_ids (nodes pj) []) = Inr ss'"
     "run_loop fuel (edges pj) (events sc) bb
           (schedule 0 (or_default (duration_ms sc) 10000) Until (initial_env g ss' (events sc))) = Some (Halted s')"
     "r = simpy_response (or_default (duration_ms sc) 10000) s'"
    by (rule run_with_simpy_halted)
  have sb: "stores_bounded bb s'"
    using stores_bounded_run_loop stores_bounded_initial[OF h(1)] h(2) by blast
  show "\<forall>(b, m) \<in> set (metrics r). int (queue_depth m) \<le> capacity_of bb b"
  proof clarify
    fix b m assume "(b, m) \<in> set (metrics r)"
    then obtain st0 where "(b, st0) \<in> set (stores s')" and m: "m = block_metrics_of (or_default (duration_ms sc) 10000) s' b"
      using h(3) by (auto simp: simpy_response_def)
    then obtain st where st: "map_of (stores s') b = Some st"
      by (metis weak_map_of_SomeI)
    then have "(b, st) \<in> set (stores s')" by (rule map_of_SomeD)
    then have "int (length (items st)) \<le> capacity_of bb b"
      using sb by (auto simp: stores_bounded_def)
    then show "int (queue_depth m) \<le> capacity_of bb b"
      using m st by (simp add: block_metrics_of_def Let_def)
  qed
qed


theorem queue_depth_within_capacity_witness:
  "map_option fst (run_with_simpy 30 half_draws only_A
       \<lparr>duration_ms = Some 50, events = [stimulus_at 0 ''A'', stimulus_at 10 ''A'']\<rparr>
       (behaviors_A one_slot None)) =
     Some (Inr \<lparr>status = ''complete'',
       metrics = [(''A'', \<lparr>utilization = 0, queue_depth = 1, processed_count = 0, failures = 0\<rparr>)],
       timeline = [\<lparr>timestamp_ms = 0, entry_block_id = ''A'', event_type = ''stimulus'',
                    entry_detail = Signal ''trigger''\<rparr>,
                   \<lparr>timestamp_ms = 10, entry_block_id = ''A'', event_type = ''stimulus'',
                    entry_detail = Signal ''trigger''\<rparr>],
       errors = []\<rparr>)
   \<and> int (queue_depth \<lparr>utilization = 0, queue_depth = 1, processed_count = 0, failures = 0\<rparr>)
        \<le> capacity_of (behaviors_A one_slot None) ''A''"
proof -
  let ?sc = "\<lparr>duration_ms = Some 50, events = [stimulus_at 0 ''A'', stimulus_at 10 ''A'']\<rparr>"
  let ?bb = "behaviors_A one_slot None"
  let ?run = "run_with_simpy 30 half_draws only_A ?sc ?bb"
  let ?r = "\<lparr>status = ''complete'',
       metrics = [(''A'', \<lparr>utilization = 0, queue_depth = 1, processed_count = 0, failures = 0\<rparr>)],
       timeline = [\<lparr>timestamp_ms = 0, entry_block_id = ''A'', event_type = ''stimulus'',
                    entry_detail = Signal ''trigger''\<rparr>,
                   \<lparr>timestamp_ms = 10, entry_block_id = ''A'', event_type = ''stimulus'',
                    entry_detail = Signal ''trigger''\<rparr>],
       errors = []\<rparr>"
  have mk: "make_stores ?bb (block_ids (nodes only_A) []) =
              Inr [(''A'', \<lparr>items = [], capacity = 1, get_waiting = False\<rparr>)]"
    by code_simp
  have ev: "map_option fst ?run = Some (Inr ?r)"
    by code_simp
  then have run: "?run = Some (Inr ?r, snd (the ?run))"
    by (cases ?run) auto
  from queue_depth_within_capacity[where pj = only_A and sc = ?sc and bb = ?bb and fuel = 30
      and g = half_draws and r = ?r and g' = "snd (the ?run)", OF mk refl] run
  have "int (queue_depth \<lparr>utilization = 0, queue_depth = 1, processed_count = 0, failures = 0\<rparr>)
        \<le> capacity_of (behaviors_A one_slot None) ''A''" by simp
  with ev show ?thesis by blast
qed

section \<open>The clock and utilization\<close>


lemma set_heappush: "set (heappush e q) = insert e (set q)"
  by (induction q) auto




lemma time_ok_updates [simp]:
  "time_ok (s\<lparr>stores := ss\<rparr>) = time_ok s"
  "time_ok (s\<lparr>next_eid := i\<rparr>) = time_ok s"
  "time_ok (s\<lparr>pending := p\<rparr>) = time_ok s"
  "time_ok (s\<lparr>sim_timeline := es\<rparr>) = time_ok s"
  "time_ok (s\<lparr>rng_state := g\<rparr>) = time_ok s"
  by (simp_all add: time_ok_def)









lemma forward_now [simp]: "now (forward es b n s) = now s"
  by (induction es arbitrary: s) (auto simp: put_if_room_def split: option.splits)


















section \<open>The random generator\<close>





















lemma launch_rng_state [simp]: "rng_state (launch bs s) = rng_state s"
  by (induction bs arbitrary: s) simp_all







section \<open>Runs whose stimuli are all skipped\<close>

lemma length_heappush [simp]: "length (heappush e q) = Suc (length q)"
  by (induction q) auto

lemma filter_heappush:
  "length (filter P (heappush e q)) = (if P e then 1 else 0) + length (filter P q)"
  by (induction q) auto

lemma untargeted_deliver: "untargeted (stores s) ev \<Longrightarrow> deliver ev s = s"
  by (auto simp: untargeted_def deliver_def put_if_room_def split: option.splits)

lemma quiet_store_get:
  assumes "\<forall>(b, st) \<in> set (stores s). items st = []"
  shows "\<exists>ss. store_get b s = s\<lparr>stores := ss\<rparr> \<and> (\<forall>(b, st) \<in> set ss. items st = [])
            \<and> (\<forall>t. map_of ss t = None \<longleftrightarrow> map_of (stores s) t = None)"
proof (cases "map_of (stores s) b")
  case None
  then have "store_get b s = s\<lparr>stores := stores s\<rparr>" by (simp add: store_get_def)
  then show ?thesis using assms by blast
next
  case (Some st)
  then have it: "items st = []" using assms by (auto dest: map_of_SomeD)
  let ?ss = "dict_set b (st\<lparr>get_waiting := True\<rparr>) (stores s)"
  have "store_get b s = s\<lparr>stores := ?ss\<rparr>"
    using Some it by (simp add: store_get_def trigger_get_def map_of_dict_set)
  moreover have "\<forall>(b, st) \<in> set ?ss. items st = []"
    using assms it set_dict_set[of b "st\<lparr>get_waiting := True\<rparr>" "stores s"] by auto
  moreover have "\<forall>t. map_of ?ss t = None \<longleftrightarrow> map_of (stores s) t = None"
    using Some by (auto simp: map_of_dict_set)
  ultimately show ?thesis by blast
qed

lemma untargeted_cong:
  "(\<forall>t. map_of ss t = None \<longleftrightarrow> map_of ss' t = None) \<Longrightarrow> untargeted ss ev = untargeted ss' ev"
  by (auto simp: untargeted_def split: option.splits)

lemma quiet_step:
  assumes "quiet evs s"
  shows "(\<exists>s'. step es evs bb s = Continue s' \<and> quiet evs s' \<and> work evs s' < work evs s
               \<and> rng_state s' = rng_state s)
       \<or> (\<exists>s'. step es evs bb s = Stopped s' \<and> quiet evs (s'\<lparr>queue := queue s\<rparr>)
               \<and> rng_state s' = rng_state s)"
proof -
  from assms obtain e0 where "e0 \<in> set (queue s)" by (auto simp: quiet_def)
  then obtain e q where Q: "queue s = e # q" by (cases "queue s") auto
  obtain t p i ev where e: "e = (t, p, i, ev)" by (cases e)
  let ?s = "s\<lparr>now := t, queue := q\<rparr>"
  have st: "step es evs bb s = fire es evs bb ev ?s" using Q e by (simp add: step_def)
  have h: "harmless ev" using assms Q e by (simp add: quiet_def entry_event_def)
  have base: "\<forall>(b, st) \<in> set (stores s). items st = []" "sim_timeline s = []"
    "\<forall>(b, c) \<in> set (blocks s). c = new_block"
    "\<forall>ev \<in> set (pending s) \<union> set evs. untargeted (stores s) ev"
    "\<forall>e \<in> set q. harmless (entry_event e)"
    using assms Q by (simp_all add: quiet_def)
  have until: "ev \<noteq> Until \<Longrightarrow> \<exists>e \<in> set q. entry_event e = Until"
    using assms Q e by (auto simp: quiet_def entry_event_def)
  show ?thesis
  proof (cases ev)
    case (InitBlock b)
    from quiet_store_get[of ?s b] base(1) obtain ss where ss:
      "store_get b ?s = ?s\<lparr>stores := ss\<rparr>" "\<forall>(b, st) \<in> set ss. items st = []"
      "\<forall>t. map_of ss t = None \<longleftrightarrow> map_of (stores s) t = None"
      by auto
    have "quiet evs (?s\<lparr>stores := ss\<rparr>)"
      using base ss(2) until InitBlock untargeted_cong[OF ss(3)]
      by (simp add: quiet_def)
    moreover have "work evs (?s\<lparr>stores := ss\<rparr>) < work evs s"
      using Q e InitBlock by (simp add: work_def entry_event_def)
    ultimately show ?thesis using st InitBlock ss(1) by simp
  next
    case InitInjector
    let ?p = "sort_key ev_time evs"
    let ?s' = "injector_wait (?s\<lparr>pending := ?p\<rparr>)"
    have pu: "\<forall>ev \<in> set ?p \<union> set evs. untargeted (stores s) ev" using base(4) by simp
    have q': "quiet evs ?s'"
      using base pu until InitInjector
      by (auto simp: quiet_def injector_wait_def schedule_def set_heappush entry_event_def
          simp del: set_sort split: list.splits)
    have "length ?p = length evs" by simp
    then have "work evs ?s' < work evs s"
      using Q e InitInjector
      by (auto simp: work_def injector_wait_def schedule_def filter_heappush entry_event_def
          simp del: length_sort split: list.splits)
    moreover have "rng_state ?s' = rng_state s"
      by (simp add: injector_wait_def split: list.splits)
    ultimately show ?thesis using st InitInjector q' by (simp add: event_injector_start_def)
  next
    case Until
    have "quiet evs (?s\<lparr>queue := queue s\<rparr>)" using assms by (simp add: quiet_def)
    then show ?thesis using st Until by simp
  next
    case InjectorTimeout
    show ?thesis
    proof (cases "pending s")
      case Nil
      have "quiet evs ?s" using base until InjectorTimeout by (simp add: quiet_def)
      moreover have "work evs ?s < work evs s" using Q e InjectorTimeout by (simp add: work_def entry_event_def)
      ultimately show ?thesis using st InjectorTimeout Nil by (simp add: event_injector_resume_def)
    next
      case (Cons x rest)
      have "untargeted (stores ?s) x" using base(4) Cons by simp
      then have d: "deliver x ?s = ?s" by (rule untargeted_deliver)
      let ?s' = "injector_wait (?s\<lparr>pending := rest\<rparr>)"
      have q': "quiet evs ?s'"
        using base until InjectorTimeout Cons
        by (auto simp: quiet_def injector_wait_def schedule_def set_heappush entry_event_def
            split: list.splits)
      have "work evs ?s' < work evs s"
        using Q e InjectorTimeout Cons
        by (auto simp: work_def injector_wait_def schedule_def filter_heappush entry_event_def
            split: list.splits)
      moreover have "rng_state ?s' = rng_state s"
        by (simp add: injector_wait_def split: list.splits)
      ultimately show ?thesis using st InjectorTimeout Cons d q'
        by (simp add: event_injector_resume_def)
    qed
  next
    case ProcessEnded
    have "quiet evs ?s" using base until ProcessEnded by (simp add: quiet_def)
    moreover have "work evs ?s < work evs s" using Q e ProcessEnded by (simp add: work_def entry_event_def)
    ultimately show ?thesis using st ProcessEnded by simp
  qed (use h in simp_all)
qed

lemma quiet_run:
  "quiet evs s \<Longrightarrow> work evs s < n \<Longrightarrow>
     \<exists>s' q. run_loop n es evs bb s = Some (Halted s') \<and> quiet evs (s'\<lparr>queue := q\<rparr>)
           \<and> rng_state s' = rng_state s"
proof (induction n arbitrary: s)
  case 0
  then show ?case by simp
next
  case (Suc n)
  from quiet_step[OF Suc.prems(1), of es bb]
  show ?case
  proof
    assume "\<exists>s'. step es evs bb s = Continue s' \<and> quiet evs s' \<and> work evs s' < work evs s
               \<and> rng_state s' = rng_state s"
    then obtain s1 where s1: "step es evs bb s = Continue s1" "quiet evs s1"
      "work evs s1 < work evs s" "rng_state s1 = rng_state s" by blast
    have "work evs s1 < n" using s1(3) Suc.prems(2) by simp
    from Suc.IH[OF s1(2) this] s1(1,4) show ?thesis by auto
  next
    assume "\<exists>s'. step es evs bb s = Stopped s' \<and> quiet evs (s'\<lparr>queue := queue s\<rparr>)
               \<and> rng_state s' = rng_state s"
    then show ?thesis by auto
  qed
qed

lemma launch_pending [simp]: "pending (launch bs s) = pending s"
  by (induction bs arbitrary: s) simp_all

lemma launch_queue:
  "length (queue (launch bs s)) = length (queue s) + length bs"
  "length (filter (\<lambda>e. entry_event e = InitInjector) (queue (launch bs s)))
     = length (filter (\<lambda>e. entry_event e = InitInjector) (queue s))"
  by (induction bs arbitrary: s)
     (simp_all add: schedule_def filter_heappush entry_event_def)

lemma launch_harmless:
  "\<forall>e \<in> set (queue s). harmless (entry_event e) \<Longrightarrow>
     \<forall>e \<in> set (queue (launch bs s)). harmless (entry_event e)"
proof (induction bs arbitrary: s)
  case Nil
  then show ?case by simp
next
  case (Cons b bs)
  have "\<forall>e \<in> set (queue (schedule 0 0 (InitBlock b) s)). harmless (entry_event e)"
    using Cons.prems by (simp add: schedule_def set_heappush entry_event_def)
  from Cons.IH[OF this] show ?case by simp
qed

lemma quiet_initial:
  assumes "make_stores bb ids = Inr ss" and "\<forall>ev \<in> set evs. untargeted ss ev"
  shows "quiet evs (schedule 0 dur Until (initial_env g ss evs))"
    and "work evs (schedule 0 dur Until (initial_env g ss evs)) \<le> length ss + length evs + 3"
    and "rng_state (schedule 0 dur Until (initial_env g ss evs)) = g"
proof -
  let ?s0 = "\<lparr>now = 0, queue = [], next_eid = 0, stores = ss,
                blocks = map (\<lambda>(b, _). (b, new_block)) ss, pending = [],
                sim_timeline = [], rng_state = g\<rparr>"
  let ?s1 = "launch (map fst ss) ?s0"
  have empty: "\<forall>(b, st) \<in> set ss. items st = []"
    using make_stores_fresh[OF assms(1)] by auto
  have h1: "\<forall>e \<in> set (queue ?s1). harmless (entry_event e)"
    by (rule launch_harmless) simp
  have l1: "length (queue ?s1) = length ss" using launch_queue(1)[of "map fst ss" ?s0] by simp
  have c1: "length (filter (\<lambda>e. entry_event e = InitInjector) (queue ?s1)) = 0"
    using launch_queue(2)[of "map fst ss" ?s0] by simp
  show "quiet evs (schedule 0 dur Until (initial_env g ss evs))"
    using empty assms(2) h1
    by (auto simp: quiet_def initial_env_def Let_def schedule_def set_heappush entry_event_def)
  show "work evs (schedule 0 dur Until (initial_env g ss evs)) \<le> length ss + length evs + 3"
    using l1 c1
    by (auto simp: work_def initial_env_def Let_def schedule_def filter_heappush entry_event_def)
  show "rng_state (schedule 0 dur Until (initial_env g ss evs)) = g"
    by (simp add: initial_env_def Let_def)
qed

lemma quiet_metrics:
  assumes "quiet evs (s\<lparr>queue := q\<rparr>)" and "0 < dur"
  shows "block_metrics_of dur s b =
           \<lparr>utilization = 0, queue_depth = 0, processed_count = 0, failures = 0\<rparr>"
proof -
  have c: "(case map_of (blocks s) b of None \<Rightarrow> new_block | Some c \<Rightarrow> c) = new_block"
    using assms(1) by (auto simp: quiet_def split: option.splits dest: map_of_SomeD)
  have d: "(case map_of (stores s) b of None \<Rightarrow> 0 | Some st \<Rightarrow> length (items st)) = 0"
    using assms(1) by (auto simp: quiet_def split: option.splits dest: map_of_SomeD)
  have "py_round4 0 = 0" by (simp add: py_round4_def)
  then show ?thesis using assms(2) c d
    by (simp add: block_metrics_of_def Let_def new_block_def)
qed

text \<open>
  C10: when the injector's timeout for an event fires and the event has no target
  (\<^verbatim>\<open>block_id\<close> and \<^verbatim>\<open>target_id\<close> both absent or empty) or names a block without a Store, the
  delivery changes nothing and raises nothing, and the injector goes on to wait for the
  next event: the Stores and the timeline are as before. A run all of whose stimuli are of
  this kind returns, within as many events as it has blocks and stimuli (plus four), a
  response with status \<^verbatim>\<open>complete\<close>, an empty timeline and an empty \<^verbatim>\<open>errors\<close> list.
\<close>

theorem untargeted_stimulus_is_skipped:
  "(pending s = ev # rest \<and> untargeted (stores s) ev \<longrightarrow>
       deliver ev s = s
     \<and> fire es evs bb InjectorTimeout s = Continue (injector_wait (s\<lparr>pending := rest\<rparr>))
     \<and> stores (injector_wait (s\<lparr>pending := rest\<rparr>)) = stores s
     \<and> sim_timeline (injector_wait (s\<lparr>pending := rest\<rparr>)) = sim_timeline s)
   \<and> (make_stores bb (block_ids (nodes pj) []) = Inr ss
       \<and> 0 < or_default (duration_ms sc) 10000
       \<and> (\<forall>ev \<in> set (events sc). untargeted ss ev)
       \<and> length ss + length (events sc) + 3 < fuel \<longrightarrow>
       (\<exists>r. run_with_simpy fuel g pj sc bb = Some (Inr r, g)
           \<and> status r = ''complete'' \<and> timeline r = [] \<and> errors r = []
           \<and> (\<forall>(b, m) \<in> set (metrics r).
                 m = \<lparr>utilization = 0, queue_depth = 0, processed_count = 0, failures = 0\<rparr>)))"
proof (rule conjI; rule impI)
  assume a: "pending s = ev # rest \<and> untargeted (stores s) ev"
  then have d: "deliver ev s = s" by (simp add: untargeted_deliver)
  show "deliver ev s = s
     \<and> fire es evs bb InjectorTimeout s = Continue (injector_wait (s\<lparr>pending := rest\<rparr>))
     \<and> stores (injector_wait (s\<lparr>pending := rest\<rparr>)) = stores s
     \<and> sim_timeline (injector_wait (s\<lparr>pending := rest\<rparr>)) = sim_timeline s"
    using a d by (simp add: event_injector_resume_def injector_wait_def split: list.splits)
next
  let ?D = "or_default (duration_ms sc) 10000"
  let ?s0 = "schedule 0 ?D Until (initial_env g ss (events sc))"
  assume a: "make_stores bb (block_ids (nodes pj) []) = Inr ss
       \<and> 0 < ?D \<and> (\<forall>ev \<in> set (events sc). untargeted ss ev)
       \<and> length ss + length (events sc) + 3 < fuel"
  then have mk: "make_stores bb (block_ids (nodes pj) []) = Inr ss" and D: "0 < ?D"
    and un: "\<forall>ev \<in> set (events sc). untargeted ss ev"
    and fu: "length ss + length (events sc) + 3 < fuel" by simp_all
  note init = quiet_initial[OF mk un, of ?D g]
  have "work (events sc) ?s0 < fuel" using init(2) fu by simp
  from quiet_run[OF init(1) this, of "edges pj" bb] obtain s' q where
    run: "run_loop fuel (edges pj) (events sc) bb ?s0 = Some (Halted s')"
    and qu: "quiet (events sc) (s'\<lparr>queue := q\<rparr>)" and rs: "rng_state s' = g"
    using init(3) by auto
  have resp: "run_with_simpy fuel g pj sc bb = Some (Inr (simpy_response ?D s'), g)"
    using mk D run rs by (simp add: run_with_simpy_def Let_def)
  have "timeline (simpy_response ?D s') = []"
    using qu by (simp add: simpy_response_def quiet_def)
  moreover have "\<forall>(b, m) \<in> set (metrics (simpy_response ?D s')).
      m = \<lparr>utilization = 0, queue_depth = 0, processed_count = 0, failures = 0\<rparr>"
    using quiet_metrics[OF qu D] by (auto simp: simpy_response_def)
  ultimately show "\<exists>r. run_with_simpy fuel g pj sc bb = Some (Inr r, g)
           \<and> status r = ''complete'' \<and> timeline r = [] \<and> errors r = []
           \<and> (\<forall>(b, m) \<in> set (metrics r).
                 m = \<lparr>utilization = 0, queue_depth = 0, processed_count = 0, failures = 0\<rparr>)"
    using resp by (auto simp: simpy_response_def)
qed

theorem untargeted_stimulus_is_skipped_witness:
  "deliver stimulus_target_block_only (idle_env\<lparr>pending := [stimulus_target_block_only]\<rparr>)
      = idle_env\<lparr>pending := [stimulus_target_block_only]\<rparr>
   \<and> fire [] [] Map.empty InjectorTimeout (idle_env\<lparr>pending := [stimulus_target_block_only]\<rparr>)
      = Continue (injector_wait (idle_env\<lparr>pending := []\<rparr>))
   \<and> deliver (stimulus_at 5 ''Z'') (idle_env\<lparr>pending := [stimulus_at 5 ''Z'']\<rparr>)
      = idle_env\<lparr>pending := [stimulus_at 5 ''Z'']\<rparr>
   \<and> (\<exists>r. run_with_simpy 10 half_draws A_and_B
            \<lparr>duration_ms = Some 250, events = [stimulus_target_block_only, stimulus_at 5 ''Z'']\<rparr>
            Map.empty = Some (Inr r, half_draws)
         \<and> status r = ''complete'' \<and> timeline r = [] \<and> errors r = [])"
proof -
  let ?sc = "\<lparr>duration_ms = Some 250, events = [stimulus_target_block_only, stimulus_at 5 ''Z'']\<rparr>"
  let ?ss = "[(''A'', \<lparr>items = [], capacity = 100, get_waiting = False\<rparr>),
              (''B'', \<lparr>items = [], capacity = 100, get_waiting = False\<rparr>)]"
  have u1: "untargeted (stores (idle_env\<lparr>pending := [stimulus_target_block_only]\<rparr>)) stimulus_target_block_only"
    by (simp add: untargeted_def stimulus_target_block_only_def ev_target_def)
  have u2: "untargeted (stores (idle_env\<lparr>pending := [stimulus_at 5 ''Z'']\<rparr>)) (stimulus_at 5 ''Z'')"
    by (simp add: untargeted_def stimulus_at_def ev_target_def idle_env_def)
  have mk: "make_stores Map.empty (block_ids (nodes A_and_B) []) = Inr ?ss"
    by code_simp
  have u3: "\<forall>ev \<in> set (events ?sc). untargeted ?ss ev"
    by (simp add: untargeted_def stimulus_target_block_only_def stimulus_at_def ev_target_def)
  have D: "0 < or_default (duration_ms ?sc) 10000" by (simp add: or_default_def)
  have 1: "deliver stimulus_target_block_only (idle_env\<lparr>pending := [stimulus_target_block_only]\<rparr>)
      = idle_env\<lparr>pending := [stimulus_target_block_only]\<rparr>
     \<and> fire [] [] Map.empty InjectorTimeout (idle_env\<lparr>pending := [stimulus_target_block_only]\<rparr>)
      = Continue (injector_wait (idle_env\<lparr>pending := []\<rparr>))"
    using untargeted_stimulus_is_skipped[THEN conjunct1, of "idle_env\<lparr>pending := [stimulus_target_block_only]\<rparr>"
        stimulus_target_block_only "[]" "[]" "[]" Map.empty] u1 by simp
  have 2: "deliver (stimulus_at 5 ''Z'') (idle_env\<lparr>pending := [stimulus_at 5 ''Z'']\<rparr>)
      = idle_env\<lparr>pending := [stimulus_at 5 ''Z'']\<rparr>"
    using untargeted_stimulus_is_skipped[THEN conjunct1, of "idle_env\<lparr>pending := [stimulus_at 5 ''Z'']\<rparr>"
        "stimulus_at 5 ''Z''" "[]" "[]" "[]" Map.empty] u2 by simp
  have 3: "\<exists>r. run_with_simpy 10 half_draws A_and_B ?sc Map.empty = Some (Inr r, half_draws)
         \<and> status r = ''complete'' \<and> timeline r = [] \<and> errors r = []"
    using untargeted_stimulus_is_skipped[THEN conjunct2, of Map.empty A_and_B ?ss ?sc 10 half_draws] mk u3 D by auto
  from 1 2 3 show ?thesis by blast
qed


end
